theory Spec2Isabelle
  imports Main "HOL-Library.AList" "HOL-Library.Multiset" "HOL-Library.Sublist" "HOL-Library.Word"
begin

section \<open>Data model of \<open>huffman_file.py\<close>\<close>

text \<open>
  The exceptions the coding engine raises. \<open>IndexError\<close> is what \<open>list.pop\<close> raises on an
  empty list inside \<open>heapq.heappop\<close>.
\<close>

datatype error = ValueError | KeyError | IndexError

text \<open>
  \<open>class HuffmanNode\<close>: four fields, \<open>char\<close> and the two children being \<open>None\<close> or a value.
  The symbol type is a parameter: a symbol is one character of a Python \<open>str\<close>, compared
  for equality only. Frequencies are Python integers.
\<close>

datatype 'a HuffmanNode =
  HuffmanNode (char: "'a option") (freq: int) (left: "'a HuffmanNode option")
    (right: "'a HuffmanNode option")

text \<open>\<open>HuffmanNode.__lt__\<close>: the frequency alone decides.\<close>

definition node_lt :: "'a HuffmanNode \<Rightarrow> 'a HuffmanNode \<Rightarrow> bool" where
  "node_lt self other = (freq self < freq other)"

text \<open>
  \<open>class HuffmanCoding\<close>: the heap is a Python list, the two dictionaries are association
  lists in insertion order; \<open>d[k] = v\<close> is \<open>AList.update k v d\<close> (an existing key keeps its
  place, a new key goes to the end) and \<open>k in d\<close>, \<open>d[k]\<close> read \<open>map_of d k\<close>.
  Bit strings are Python strings over the characters 0 and 1.
\<close>

record 'a HuffmanCoding =
  heap :: "'a HuffmanNode list"
  codes :: "('a \<times> string) list"
  reverse_mapping :: "(string \<times> 'a) list"

text \<open>\<open>HuffmanCoding.__init__\<close>.\<close>

definition init :: "'a HuffmanCoding" where
  "init = \<lparr>heap = [], codes = [], reverse_mapping = []\<rparr>"

section \<open>The priority queue: \<open>heapq\<close> of the standard library\<close>

text \<open>
  \<open>heapq._siftdown(heap, startpos, pos)\<close>: the item at \<open>pos\<close> is held aside while parents
  that it is smaller than move down into the hole; it is written back where the loop stops.
\<close>

function siftdown_loop ::
  "'a HuffmanNode list \<Rightarrow> nat \<Rightarrow> nat \<Rightarrow> 'a HuffmanNode \<Rightarrow> 'a HuffmanNode list" where
  "siftdown_loop h startpos pos newitem =
     (if pos > startpos then
        (let parentpos = (pos - 1) div 2; parent = h ! parentpos in
         if node_lt newitem parent then siftdown_loop (h[pos := parent]) startpos parentpos newitem
         else h[pos := newitem])
      else h[pos := newitem])"
  by pat_completeness auto
termination
  by (relation "measure (\<lambda>(h, startpos, pos, newitem). pos)") auto

declare siftdown_loop.simps [simp del]

definition siftdown :: "'a HuffmanNode list \<Rightarrow> nat \<Rightarrow> nat \<Rightarrow> 'a HuffmanNode list" where
  "siftdown h startpos pos = siftdown_loop h startpos pos (h ! pos)"

text \<open>
  The loop of \<open>heapq._siftup(heap, pos)\<close>: the smaller child moves up into the hole until
  the hole is at a leaf; \<open>endpos\<close> is \<open>len(heap)\<close>. The result is the list and the hole.
\<close>

function siftup_loop ::
  "'a HuffmanNode list \<Rightarrow> nat \<Rightarrow> nat \<Rightarrow> 'a HuffmanNode list \<times> nat" where
  "siftup_loop h endpos pos =
     (let childpos = 2 * pos + 1 in
      if childpos < endpos then
        (let rightpos = childpos + 1;
             childpos' = (if rightpos < endpos \<and> \<not> node_lt (h ! childpos) (h ! rightpos)
                          then rightpos else childpos)
         in siftup_loop (h[pos := h ! childpos']) endpos childpos')
      else (h, pos))"
  by pat_completeness auto
termination
  by (relation "measure (\<lambda>(h, endpos, pos). endpos - pos)") (auto simp: Let_def)

declare siftup_loop.simps [simp del]

text \<open>\<open>heapq._siftup\<close>: after the loop the held item fills the hole and is sifted down.\<close>

definition siftup :: "'a HuffmanNode list \<Rightarrow> nat \<Rightarrow> 'a HuffmanNode list" where
  "siftup h pos =
     (let newitem = h ! pos in
      case siftup_loop h (length h) pos of
        (h', pos') \<Rightarrow> siftdown (h'[pos' := newitem]) pos pos')"

text \<open>\<open>heapq.heappush\<close>: append, then sift the new last item down from the root.\<close>

definition heappush :: "'a HuffmanNode list \<Rightarrow> 'a HuffmanNode \<Rightarrow> 'a HuffmanNode list" where
  "heappush h item = siftdown (h @ [item]) 0 (length h)"

text \<open>
  \<open>heapq.heappop\<close>: \<open>heap.pop()\<close> raises \<open>IndexError\<close> on the empty list; otherwise the last
  item replaces the root, which is returned, and is sifted up.
\<close>

definition heappop :: "'a HuffmanNode list \<Rightarrow> error + ('a HuffmanNode \<times> 'a HuffmanNode list)" where
  "heappop h =
     (if h = [] then Inl IndexError
      else (let lastelt = last h; h1 = butlast h in
            if h1 \<noteq> [] then
              (let returnitem = h1 ! 0 in Inr (returnitem, siftup (h1[0 := lastelt]) 0))
            else Inr (lastelt, h1)))"

text \<open>The queue operations permute: what goes in comes out, nothing is lost or copied.\<close>

lemma mset_hole_move:
  assumes "i < length h" "j < length h" "i \<noteq> j"
  shows "mset (h[i := h ! j, j := x]) = mset (h[i := x])"
proof -
  let ?g = "h[i := x]"
  have "h[i := h ! j, j := x] = ?g[j := ?g ! i, i := ?g ! j]"
    using assms by (intro nth_equalityI) (auto simp: nth_list_update)
  also have "mset \<dots> = mset ?g"
    using assms by (intro mset_swap) simp_all
  finally show ?thesis .
qed

lemma mset_siftdown_loop:
  "pos < length h \<Longrightarrow> mset (siftdown_loop h startpos pos x) = mset (h[pos := x])"
proof (induction h startpos pos x rule: siftdown_loop.induct)
  case (1 h startpos pos newitem)
  show ?case
  proof (cases "pos > startpos \<and> node_lt newitem (h ! ((pos - 1) div 2))")
    case True
    let ?pp = "(pos - 1) div 2"
    have pp: "?pp < pos" using True by auto
    have "mset (siftdown_loop (h[pos := h ! ?pp]) startpos ?pp newitem)
          = mset (h[pos := h ! ?pp, ?pp := newitem])"
      using "1.IH"[of ?pp "h ! ?pp"] True pp "1.prems" by simp
    also have "\<dots> = mset (h[pos := newitem])"
      using mset_hole_move[of pos h ?pp newitem] pp "1.prems" by simp
    finally show ?thesis
      using True by (subst siftdown_loop.simps) (simp add: Let_def)
  next
    case False
    then show ?thesis
      by (subst siftdown_loop.simps) (auto simp: Let_def)
  qed
qed

lemma mset_siftdown: "pos < length h \<Longrightarrow> mset (siftdown h startpos pos) = mset h"
  by (simp add: siftdown_def mset_siftdown_loop)

lemma siftup_loop_hole:
  "siftup_loop h endpos pos = (h', pos') \<Longrightarrow> pos < length h \<Longrightarrow> endpos = length h \<Longrightarrow>
   pos' < length h' \<and> mset (h'[pos' := x]) = mset (h[pos := x])"
proof (induction h endpos pos arbitrary: h' pos' rule: siftup_loop.induct)
  case (1 h endpos pos)
  show ?case
  proof (cases "2 * pos + 1 < endpos")
    case True
    let ?c = "if 2 * pos + 1 + 1 < endpos \<and> \<not> node_lt (h ! (2 * pos + 1)) (h ! (2 * pos + 1 + 1))
              then 2 * pos + 1 + 1 else 2 * pos + 1"
    have c: "?c < length h" "pos \<noteq> ?c"
      using True "1.prems" by auto
    have "siftup_loop h endpos pos = siftup_loop (h[pos := h ! ?c]) endpos ?c"
      using True by (subst siftup_loop.simps) (simp add: Let_def)
    then have step: "siftup_loop (h[pos := h ! ?c]) endpos ?c = (h', pos')"
      using "1.prems"(1) by simp
    have "pos' < length h' \<and> mset (h'[pos' := x]) = mset (h[pos := h ! ?c, ?c := x])"
      using "1.IH"[OF refl True refl refl step] c(1) "1.prems"(3) by simp
    then show ?thesis
      using mset_hole_move[of pos h ?c x] c "1.prems"(2) by simp
  next
    case False
    then show ?thesis
      using "1.prems" by (subst (asm) siftup_loop.simps) (auto simp: Let_def)
  qed
qed

lemma mset_siftup: "pos < length h \<Longrightarrow> mset (siftup h pos) = mset h"
proof -
  assume pos: "pos < length h"
  obtain h' pos' where l: "siftup_loop h (length h) pos = (h', pos')"
    by (cases "siftup_loop h (length h) pos")
  from siftup_loop_hole[OF l pos refl, of "h ! pos"]
  have "pos' < length h'" "mset (h'[pos' := h ! pos]) = mset h"
    by simp_all
  then show ?thesis
    using l by (simp add: siftup_def mset_siftdown)
qed

lemma mset_heappush: "mset (heappush h item) = add_mset item (mset h)"
  by (simp add: heappush_def mset_siftdown)

lemma mset_heappop:
  assumes "heappop h = Inr (x, h')"
  shows "mset h = add_mset x (mset h')"
proof -
  have ne: "h \<noteq> []" using assms by (auto simp: heappop_def)
  then have split: "h = butlast h @ [last h]" by simp
  show ?thesis
  proof (cases "butlast h")
    case Nil
    then have "x = last h" "h' = []"
      using assms ne by (auto simp: heappop_def Let_def)
    then show ?thesis using split Nil by (metis append_Nil mset.simps(1) mset.simps(2))
  next
    case (Cons y ys)
    then have "x = y" "h' = siftup (last h # ys) 0"
      using assms ne by (auto simp: heappop_def Let_def)
    then have "add_mset x (mset h') = add_mset y (add_mset (last h) (mset ys))"
      by (simp add: mset_siftup)
    also have "\<dots> = mset (butlast h @ [last h])"
      by (simp add: Cons)
    finally show ?thesis using split by simp
  qed
qed

lemma heappop_nonempty: "h \<noteq> [] \<Longrightarrow> \<exists>x h'. heappop h = Inr (x, h')"
  by (auto simp: heappop_def Let_def)

lemma length_heappush: "length (heappush h item) = Suc (length h)"
  using mset_heappush[of h item] by (metis size_mset size_add_mset)

lemma length_heappop: "heappop h = Inr (x, h') \<Longrightarrow> length h = Suc (length h')"
  using mset_heappop[of h x h'] by (metis size_mset size_add_mset)


section \<open>The coding engine: \<open>class HuffmanCoding\<close>\<close>

text \<open>
  \<open>make_frequency_dict\<close> is \<open>Counter(text)\<close>: one pass over the text,
  \<open>d[c] = d.get(c, 0) + 1\<close>, so the keys stand in order of first occurrence.
\<close>

definition make_frequency_dict :: "'a list \<Rightarrow> ('a \<times> int) list" where
  "make_frequency_dict text =
     foldl (\<lambda>d c. AList.update c ((case map_of d c of None \<Rightarrow> 0 | Some n \<Rightarrow> n) + 1) d) [] text"

text \<open>\<open>make_heap\<close>: one leaf per entry of the frequency table, pushed in the table's order.\<close>

definition make_heap :: "'a HuffmanCoding \<Rightarrow> ('a \<times> int) list \<Rightarrow> 'a HuffmanCoding" where
  "make_heap self frequency =
     self\<lparr>heap := foldl (\<lambda>h (c, f). heappush h (HuffmanNode (Some c) f None None))
                       (heap self) frequency\<rparr>"

text \<open>The \<open>while\<close> loop of \<open>merge_nodes\<close>, on the heap it mutates.\<close>

function merge_loop :: "'a HuffmanNode list \<Rightarrow> error + 'a HuffmanNode list" where
  "merge_loop h =
     (if length h > 1 then
        (case heappop h of
           Inl e \<Rightarrow> Inl e
         | Inr (node1, h1) \<Rightarrow>
             (case heappop h1 of
                Inl e \<Rightarrow> Inl e
              | Inr (node2, h2) \<Rightarrow>
                  merge_loop (heappush h2
                    (HuffmanNode None (freq node1 + freq node2) (Some node1) (Some node2)))))
      else Inr h)"
  by pat_completeness auto
termination
proof (relation "measure length")
  fix h :: "'a HuffmanNode list" and p node1 h1 q node2 h2
  assume "heappop h = Inr p" "(node1, h1) = p" "heappop h1 = Inr q" "(node2, h2) = q"
  then have "length h = Suc (length h1)" "length h1 = Suc (length h2)"
    by (auto dest: length_heappop)
  then show "(heappush h2 (HuffmanNode None (freq node1 + freq node2) (Some node1) (Some node2)), h)
              \<in> measure length"
    by (simp add: length_heappush)
qed simp

declare merge_loop.simps [simp del]

definition merge_nodes :: "'a HuffmanCoding \<Rightarrow> error + 'a HuffmanCoding" where
  "merge_nodes self =
     (case merge_loop (heap self) of Inl e \<Rightarrow> Inl e | Inr h \<Rightarrow> Inr (self\<lparr>heap := h\<rparr>))"

text \<open>
  \<open>make_codes_helper\<close>: \<open>current_code or "0"\<close> is the string itself unless it is empty.
\<close>

definition or_zero :: "string \<Rightarrow> string" where
  "or_zero current_code = (if current_code = [] then ''0'' else current_code)"

fun make_codes_helper ::
  "'a HuffmanNode option \<Rightarrow> string \<Rightarrow> 'a HuffmanCoding \<Rightarrow> 'a HuffmanCoding" where
  "make_codes_helper None current_code self = self"
| "make_codes_helper (Some (HuffmanNode (Some c) f l r)) current_code self =
     self\<lparr>codes := AList.update c (or_zero current_code) (codes self),
          reverse_mapping := AList.update (or_zero current_code) c (reverse_mapping self)\<rparr>"
| "make_codes_helper (Some (HuffmanNode None f l r)) current_code self =
     make_codes_helper r (current_code @ ''1'') (make_codes_helper l (current_code @ ''0'') self)"

definition make_codes :: "'a HuffmanCoding \<Rightarrow> error + 'a HuffmanCoding" where
  "make_codes self =
     (if heap self = [] then Inr self
      else (case heappop (heap self) of
              Inl e \<Rightarrow> Inl e
            | Inr (root, h) \<Rightarrow> Inr (make_codes_helper (Some root) [] (self\<lparr>heap := h\<rparr>))))"

fun encode_loop :: "('a \<times> string) list \<Rightarrow> 'a list \<Rightarrow> string \<Rightarrow> error + string" where
  "encode_loop cs [] encoded_text = Inr encoded_text"
| "encode_loop cs (c # text) encoded_text =
     (case map_of cs c of
        None \<Rightarrow> Inl KeyError
      | Some code \<Rightarrow> encode_loop cs text (encoded_text @ code))"

definition get_encoded_text :: "'a HuffmanCoding \<Rightarrow> 'a list \<Rightarrow> error + string" where
  "get_encoded_text self text =
     (if codes self = [] then Inl KeyError else encode_loop (codes self) text [])"

text \<open>
  \<open>format(n, '08b')\<close> for \<open>n \<ge> 0\<close>: the binary digits, most significant first, zero-filled
  on the left to width 8.
\<close>

definition bit_char :: "nat \<Rightarrow> char" where
  "bit_char d = (if d = 0 then CHR ''0'' else CHR ''1'')"

fun bin_digits :: "nat \<Rightarrow> string" where
  "bin_digits n = (if n < 2 then [bit_char n] else bin_digits (n div 2) @ [bit_char (n mod 2)])"

declare bin_digits.simps [simp del]

definition format_08b :: "nat \<Rightarrow> string" where
  "format_08b n = (let s = bin_digits n in replicate (8 - length s) CHR ''0'' @ s)"

text \<open>
  \<open>int(s, 2)\<close> on strings of binary digits; the empty string raises \<open>ValueError\<close>. Python
  accepts a few more spellings (surrounding blanks, a sign, a \<open>0b\<close> prefix, single
  underscores between digits); they are reported as \<open>ValueError\<close> here, and the theorems
  below only read strings of binary digits.
\<close>

definition is_bit :: "char \<Rightarrow> bool" where
  "is_bit b = (b = CHR ''0'' \<or> b = CHR ''1'')"

definition int_base2 :: "string \<Rightarrow> error + nat" where
  "int_base2 s =
     (if s = [] \<or> \<not> list_all is_bit s then Inl ValueError
      else Inr (foldl (\<lambda>acc b. 2 * acc + (if b = CHR ''1'' then 1 else 0)) 0 s))"

definition pad_encoded_text :: "string \<Rightarrow> string" where
  "pad_encoded_text encoded_text =
     (let padding_amount = 8 - (length encoded_text mod 8);
          padding_amount = (if padding_amount = 8 then 0 else padding_amount);
          padding_info = format_08b padding_amount
      in padding_info @ encoded_text @ replicate padding_amount CHR ''0'')"

text \<open>
  \<open>get_byte_array\<close>: the slices \<open>s[i:i+8]\<close> for \<open>i\<close> in \<open>range(0, len(s), 8)\<close>, each read in
  base 2 and appended to a \<open>bytearray\<close>, which takes values below 256 only.
\<close>

function slices8 :: "string \<Rightarrow> string list" where
  "slices8 s = (if s = [] then [] else take 8 s # slices8 (drop 8 s))"
  by pat_completeness auto
termination
  by (relation "measure length") auto

declare slices8.simps [simp del]

fun append_bytes :: "string list \<Rightarrow> error + 8 word list" where
  "append_bytes [] = Inr []"
| "append_bytes (byte # rest) =
     (case int_base2 byte of
        Inl e \<Rightarrow> Inl e
      | Inr n \<Rightarrow>
          if n < 256 then
            (case append_bytes rest of Inl e \<Rightarrow> Inl e | Inr b \<Rightarrow> Inr (of_nat n # b))
          else Inl ValueError)"

definition get_byte_array :: "string \<Rightarrow> error + 8 word list" where
  "get_byte_array padded_encoded_text =
     (if padded_encoded_text = [] then Inl ValueError
      else append_bytes (slices8 padded_encoded_text))"

text \<open>
  \<open>compress\<close> returns the bytes and the code table; the instance it leaves behind is the
  third component. An exception has no result.
\<close>

definition compress ::
  "'a HuffmanCoding \<Rightarrow> 'a list \<Rightarrow> error + (8 word list \<times> ('a \<times> string) list) \<times> 'a HuffmanCoding" where
  "compress self text =
     (if text = [] then Inl ValueError
      else
        (let frequency = make_frequency_dict text;
             s1 = make_heap self frequency
         in case merge_nodes s1 of
              Inl e \<Rightarrow> Inl e
            | Inr s2 \<Rightarrow>
                (case make_codes s2 of
                   Inl e \<Rightarrow> Inl e
                 | Inr s3 \<Rightarrow>
                     (case get_encoded_text s3 text of
                        Inl e \<Rightarrow> Inl e
                      | Inr encoded_text \<Rightarrow>
                          (case get_byte_array (pad_encoded_text encoded_text) of
                             Inl e \<Rightarrow> Inl e
                           | Inr byte_array \<Rightarrow> Inr ((byte_array, codes s3), s3))))))"

text \<open>
  \<open>remove_padding\<close>: \<open>s[8:-p]\<close> keeps the positions from 8 up to \<open>len(s) - p\<close>.
\<close>

definition remove_padding :: "string \<Rightarrow> error + string" where
  "remove_padding bit_string =
     (if length bit_string < 8 then Inl ValueError
      else
        (case int_base2 (take 8 bit_string) of
           Inl e \<Rightarrow> Inl ValueError
         | Inr padding_amount \<Rightarrow>
             if padding_amount > 7 \<or> (padding_amount > 0 \<and> length bit_string < 8 + padding_amount)
             then Inl ValueError
             else
               (let bit_string' =
                      (if padding_amount > 0
                       then drop 8 (take (length bit_string - padding_amount) bit_string)
                       else drop 8 bit_string)
                in if bit_string' = [] then Inl ValueError else Inr bit_string')))"

text \<open>
  The \<open>for\<close> loop of \<open>decode_text\<close>: the state is \<open>current_code\<close> and \<open>decoded_text\<close>.
\<close>

fun decode_loop ::
  "(string \<times> 'a) list \<Rightarrow> string \<Rightarrow> string \<Rightarrow> 'a list \<Rightarrow> error + (string \<times> 'a list)" where
  "decode_loop rm [] current_code decoded_text = Inr (current_code, decoded_text)"
| "decode_loop rm (b # bits) current_code decoded_text =
     (if \<not> is_bit b then Inl ValueError
      else
        (let current_code = current_code @ [b] in
         case map_of rm current_code of
           Some character \<Rightarrow> decode_loop rm bits [] (decoded_text @ [character])
         | None \<Rightarrow> decode_loop rm bits current_code decoded_text))"

definition decode_text :: "'a HuffmanCoding \<Rightarrow> string \<Rightarrow> error + 'a list" where
  "decode_text self encoded_text =
     (if encoded_text = [] then Inl ValueError
      else
        (case decode_loop (reverse_mapping self) encoded_text [] [] of
           Inl e \<Rightarrow> Inl e
         | Inr (current_code, decoded_text) \<Rightarrow>
             if current_code \<noteq> [] then Inl ValueError else Inr decoded_text))"

text \<open>
  \<open>decompress\<close>: only \<open>ValueError\<close> is caught and turned into the empty text.
\<close>

definition expand_bytes :: "8 word list \<Rightarrow> string" where
  "expand_bytes byte_array = concat (map (\<lambda>byte. format_08b (unat byte)) byte_array)"

definition decompress :: "'a HuffmanCoding \<Rightarrow> 8 word list \<Rightarrow> error + 'a list" where
  "decompress self byte_array =
     (let bit_string = expand_bytes byte_array in
      case (case remove_padding bit_string of
              Inl e \<Rightarrow> Inl e
            | Inr encoded_text \<Rightarrow> decode_text self encoded_text) of
        Inl ValueError \<Rightarrow> Inr []
      | Inl e \<Rightarrow> Inl e
      | Inr decompressed_text \<Rightarrow> Inr decompressed_text)"




fun leaf_codes :: "'a HuffmanNode option \<Rightarrow> string \<Rightarrow> ('a \<times> string) list" where
  "leaf_codes None current_code = []"
| "leaf_codes (Some (HuffmanNode (Some c) f l r)) current_code = [(c, or_zero current_code)]"
| "leaf_codes (Some (HuffmanNode None f l r)) current_code =
     leaf_codes l (current_code @ ''0'') @ leaf_codes r (current_code @ ''1'')"

fun leaves :: "'a HuffmanNode option \<Rightarrow> 'a list" where
  "leaves None = []"
| "leaves (Some (HuffmanNode (Some c) f l r)) = [c]"
| "leaves (Some (HuffmanNode None f l r)) = leaves l @ leaves r"

definition set_codes :: "('a \<times> string) list \<Rightarrow> ('a \<times> string) list \<Rightarrow> ('a \<times> string) list" where
  "set_codes L cs = fold (\<lambda>(c, p). AList.update c p) L cs"

definition set_reverse :: "('a \<times> string) list \<Rightarrow> (string \<times> 'a) list \<Rightarrow> (string \<times> 'a) list" where
  "set_reverse L rm = fold (\<lambda>(c, p). AList.update p c) L rm"

lemma set_codes_append [simp]: "set_codes (L @ M) cs = set_codes M (set_codes L cs)"
  by (simp add: set_codes_def)

lemma set_reverse_append [simp]: "set_reverse (L @ M) rm = set_reverse M (set_reverse L rm)"
  by (simp add: set_reverse_def)

lemma make_codes_helper_fold:
  "make_codes_helper n cur self =
     self\<lparr>codes := set_codes (leaf_codes n cur) (codes self),
          reverse_mapping := set_reverse (leaf_codes n cur) (reverse_mapping self)\<rparr>"
  by (induction n cur self rule: make_codes_helper.induct)
     (simp_all add: set_codes_def set_reverse_def)

lemma map_fst_leaf_codes: "map fst (leaf_codes n cur) = leaves n"
  by (induction n cur rule: leaf_codes.induct) simp_all

lemma leaf_codes_extend:
  "(c, p) \<in> set (leaf_codes n cur) \<Longrightarrow> cur \<noteq> [] \<Longrightarrow> prefix cur p"
  by (induction n cur rule: leaf_codes.induct)
     (auto simp: or_zero_def dest: append_prefixD)

lemma leaf_codes_nonempty: "(c, p) \<in> set (leaf_codes n cur) \<Longrightarrow> p \<noteq> []"
  by (induction n cur rule: leaf_codes.induct) (auto simp: or_zero_def)

lemma leaf_codes_bits: "(c, p) \<in> set (leaf_codes n cur) \<Longrightarrow> list_all is_bit cur \<Longrightarrow> list_all is_bit p"
  by (induction n cur rule: leaf_codes.induct) (auto simp: or_zero_def is_bit_def)

text \<open>No code at one position of the table is a prefix of the code at another position.\<close>

definition prefix_free :: "('a \<times> string) list \<Rightarrow> bool" where
  "prefix_free L = (\<forall>i < length L. \<forall>j < length L. i \<noteq> j \<longrightarrow> \<not> prefix (snd (L ! i)) (snd (L ! j)))"

lemma prefix_free_append:
  assumes "prefix_free L" "prefix_free M"
    and "\<And>c p d q. (c, p) \<in> set L \<Longrightarrow> (d, q) \<in> set M \<Longrightarrow> \<not> prefix p q \<and> \<not> prefix q p"
  shows "prefix_free (L @ M)"
  unfolding prefix_free_def
proof (intro allI impI)
  fix i j assume ij: "i < length (L @ M)" "j < length (L @ M)" "i \<noteq> j"
  have inL: "\<And>k. k < length L \<Longrightarrow> (fst (L ! k), snd (L ! k)) \<in> set L" by simp
  have inM: "\<And>k. k < length M \<Longrightarrow> (fst (M ! k), snd (M ! k)) \<in> set M" by simp
  consider "i < length L" "j < length L" | "i < length L" "\<not> j < length L"
    | "\<not> i < length L" "j < length L" | "\<not> i < length L" "\<not> j < length L" by blast
  then show "\<not> prefix (snd ((L @ M) ! i)) (snd ((L @ M) ! j))"
  proof cases
    case 1 then show ?thesis using assms(1) ij by (simp add: prefix_free_def nth_append)
  next
    case 2 
    then have "j - length L < length M" using ij by simp
    then show ?thesis using assms(3)[OF inL[OF 2(1)] inM] 2 by (simp add: nth_append)
  next
    case 3
    then have "i - length L < length M" using ij by simp
    then show ?thesis using assms(3)[OF inL[OF 3(2)] inM] 3 by (simp add: nth_append)
  next
    case 4
    then have "i - length L < length M" "j - length L < length M" "i - length L \<noteq> j - length L"
      using ij by auto
    then show ?thesis using assms(2) 4 by (simp add: prefix_free_def nth_append)
  qed
qed

lemma branch_split: "prefix (cur @ ''0'') p \<Longrightarrow> prefix (cur @ ''1'') q \<Longrightarrow> \<not> prefix p q \<and> \<not> prefix q p"
proof -
  assume a: "prefix (cur @ ''0'') p" "prefix (cur @ ''1'') q"
  then obtain u v where p: "p = cur @ ''0'' @ u" and q: "q = cur @ ''1'' @ v"
    by (auto simp: prefix_def)
  show ?thesis unfolding p q by (auto simp: prefix_def)
qed

lemma prefix_free_leaf_codes: "prefix_free (leaf_codes n cur)"
proof (induction n cur rule: leaf_codes.induct)
  case (3 f l r cur)
  show ?case
    unfolding leaf_codes.simps
  proof (rule prefix_free_append[OF 3])
    fix c p d q
    assume "(c, p) \<in> set (leaf_codes l (cur @ ''0''))" "(d, q) \<in> set (leaf_codes r (cur @ ''1''))"
    then have "prefix (cur @ ''0'') p" "prefix (cur @ ''1'') q"
      by (auto dest: leaf_codes_extend)
    then show "\<not> prefix p q \<and> \<not> prefix q p" by (rule branch_split)
  qed
qed (simp_all add: prefix_free_def)


section \<open>Binary numerals: \<open>format\<close> and \<open>int\<close> undo each other\<close>

definition bits_val :: "string \<Rightarrow> nat" where
  "bits_val s = foldl (\<lambda>acc b. 2 * acc + (if b = CHR ''1'' then 1 else 0)) 0 s"

lemma int_base2_bits: "s \<noteq> [] \<Longrightarrow> list_all is_bit s \<Longrightarrow> int_base2 s = Inr (bits_val s)"
  by (simp add: int_base2_def bits_val_def)

lemma bits_val_snoc: "bits_val (s @ [b]) = 2 * bits_val s + (if b = CHR ''1'' then 1 else 0)"
  by (simp add: bits_val_def)

lemma bits_val_Nil [simp]: "bits_val [] = 0"
  by (simp add: bits_val_def)

lemma bits_val_bit_char: "d < 2 \<Longrightarrow> bits_val [bit_char d] = d"
  by (auto simp: bits_val_def bit_char_def)

lemma bits_val_bin_digits: "bits_val (bin_digits n) = n"
proof (induction n rule: bin_digits.induct)
  case (1 n)
  show ?case
  proof (cases "n < 2")
    case True
    then show ?thesis by (subst bin_digits.simps) (simp add: bits_val_bit_char)
  next
    case False
    have "(if bit_char (n mod 2) = CHR ''1'' then 1 else 0) = n mod 2"
      by (cases "even n") (auto simp: bit_char_def)
    then have "bits_val (bin_digits (n div 2) @ [bit_char (n mod 2)]) = 2 * (n div 2) + n mod 2"
      using 1[OF False] by (simp only: bits_val_snoc)
    also have "\<dots> = n" by simp
    finally show ?thesis using False by (subst bin_digits.simps) simp
  qed
qed

lemma bits_val_zeros: "bits_val (replicate k CHR ''0'' @ s) = bits_val s"
proof (induction s rule: rev_induct)
  case Nil
  show ?case by (induction k) (simp_all add: bits_val_def)
next
  case (snoc b s)
  then show ?case by (simp add: bits_val_snoc append_assoc[symmetric] del: append_assoc)
qed

lemma is_bit_bit_char: "is_bit (bit_char d)"
  by (simp add: is_bit_def bit_char_def)

lemma bin_digits_bits: "list_all is_bit (bin_digits n)"
proof (induction n rule: bin_digits.induct)
  case (1 n)
  then show ?case
    by (subst bin_digits.simps) (simp add: is_bit_bit_char)
qed

lemma bin_digits_nonempty: "bin_digits n \<noteq> []"
  by (subst bin_digits.simps) simp

lemma length_bin_digits: "n < 2 ^ k \<Longrightarrow> 0 < k \<Longrightarrow> length (bin_digits n) \<le> k"
proof (induction n arbitrary: k rule: bin_digits.induct)
  case (1 n)
  show ?case
  proof (cases "n < 2")
    case True
    then show ?thesis using "1.prems" by (subst bin_digits.simps) simp
  next
    case False
    obtain k' where k: "k = Suc k'" using "1.prems" by (cases k) auto
    have "k' \<noteq> 0" using False "1.prems" k by (cases k') auto
    moreover have "n div 2 < 2 ^ k'" using "1.prems" k by auto
    ultimately have "length (bin_digits (n div 2)) \<le> k'"
      using "1.IH"[OF False, of k'] by simp
    then show ?thesis using False k by (subst bin_digits.simps) simp
  qed
qed

lemma zeros_bits: "list_all is_bit (replicate k CHR ''0'')"
  by (induction k) (simp_all add: is_bit_def)

lemma format_08b_bits: "list_all is_bit (format_08b n)"
  by (simp add: format_08b_def Let_def bin_digits_bits zeros_bits)

lemma length_format_08b: "n < 256 \<Longrightarrow> length (format_08b n) = 8"
  using length_bin_digits[of n 8] by (simp add: format_08b_def Let_def)

lemma bits_val_format_08b: "bits_val (format_08b n) = n"
  by (simp add: format_08b_def Let_def bits_val_zeros bits_val_bin_digits)

lemma int_base2_format_08b: "int_base2 (format_08b n) = Inr n"
proof -
  have "format_08b n \<noteq> []" by (simp add: format_08b_def Let_def bin_digits_nonempty)
  then show ?thesis
    by (simp add: int_base2_bits format_08b_bits bits_val_format_08b)
qed

text \<open>The digits of the value of a bit string are the string without its leading zeros.\<close>

lemma bits_val_zero_iff: "list_all is_bit s \<Longrightarrow> bits_val s = 0 \<longleftrightarrow> dropWhile (\<lambda>b. b = CHR ''0'') s = []"
proof (induction s rule: rev_induct)
  case Nil
  show ?case by simp
next
  case (snoc b s)
  then show ?case
    by (auto simp: bits_val_snoc is_bit_def dropWhile_append)
qed

lemma bin_digits_bits_val:
  "list_all is_bit s \<Longrightarrow>
   bin_digits (bits_val s) =
     (if dropWhile (\<lambda>b. b = CHR ''0'') s = [] then ''0'' else dropWhile (\<lambda>b. b = CHR ''0'') s)"
proof (induction s rule: rev_induct)
  case Nil
  show ?case by (subst bin_digits.simps) (simp add: bit_char_def)
next
  case (snoc b s)
  let ?d = "if b = CHR ''1'' then 1 else (0::nat)"
  have bits: "list_all is_bit s" "is_bit b" using snoc.prems by simp_all
  have bc: "bit_char ?d = b" using bits(2) by (auto simp: bit_char_def is_bit_def)
  show ?case
  proof (cases "bits_val s = 0")
    case True
    then have z: "dropWhile (\<lambda>b. b = CHR ''0'') s = []"
      using bits_val_zero_iff[OF bits(1)] by simp
    have "bin_digits (bits_val (s @ [b])) = [b]"
      using True bc by (subst bin_digits.simps) (auto simp: bits_val_snoc)
    then show ?thesis using z bits(2)
      by (auto simp: dropWhile_append is_bit_def)
  next
    case False
    then have nz: "dropWhile (\<lambda>b. b = CHR ''0'') s \<noteq> []"
      using bits_val_zero_iff[OF bits(1)] by simp
    have "bin_digits (bits_val (s @ [b])) = bin_digits (bits_val s) @ [b]"
      using False bc by (subst bin_digits.simps) (auto simp: bits_val_snoc)
    then show ?thesis using nz snoc.IH[OF bits(1)]
      by (auto simp: dropWhile_append)
  qed
qed

lemma takeWhile_zeros: "takeWhile (\<lambda>b. b = CHR ''0'') s = replicate (length (takeWhile (\<lambda>b. b = CHR ''0'') s)) CHR ''0''"
  by (induction s) auto

lemma format_08b_bits_val:
  assumes "list_all is_bit s" "length s = 8"
  shows "format_08b (bits_val s) = s"
proof -
  let ?P = "\<lambda>b. b = CHR ''0''"
  have split: "s = takeWhile ?P s @ dropWhile ?P s" by simp
  have len: "length (takeWhile ?P s) + length (dropWhile ?P s) = 8"
    using assms(2) by (metis split length_append)
  show ?thesis
  proof (cases "dropWhile ?P s = []")
    case True
    then have "s = replicate 8 CHR ''0''"
      using split takeWhile_zeros[of s] len by (metis add.right_neutral append_Nil2 list.size(3))
    moreover have "bin_digits (bits_val s) = ''0''"
      using bin_digits_bits_val[OF assms(1)] True by simp
    ultimately show ?thesis
      by (simp add: format_08b_def Let_def numeral_eq_Suc)
  next
    case False
    then have "bin_digits (bits_val s) = dropWhile ?P s"
      using bin_digits_bits_val[OF assms(1)] by (simp del: dropWhile_eq_Nil_conv)
    moreover have "8 - length (dropWhile ?P s) = length (takeWhile ?P s)"
      using len by simp
    ultimately have "format_08b (bits_val s) = replicate (length (takeWhile ?P s)) CHR ''0'' @ dropWhile ?P s"
      by (simp add: format_08b_def Let_def)
    then show ?thesis using takeWhile_zeros[of s] split by metis
  qed
qed

lemma bits_val_bound: "bits_val s < 2 ^ length s"
proof (induction s rule: rev_induct)
  case Nil
  show ?case by simp
next
  case (snoc b s)
  then show ?case by (auto simp: bits_val_snoc)
qed


section \<open>Padding and packing\<close>

text \<open>The padding count of the specification, for a raw bit string of length \<open>n\<close>.\<close>

definition padding_of :: "nat \<Rightarrow> nat" where
  "padding_of n = (8 - n mod 8) mod 8"

lemma pad_encoded_text_eq:
  "pad_encoded_text B = format_08b (padding_of (length B)) @ B @ replicate (padding_of (length B)) CHR ''0''"
proof -
  have "(if 8 - length B mod 8 = 8 then 0 else 8 - length B mod 8) = padding_of (length B)"
    by (auto simp: padding_of_def)
  then show ?thesis by (simp add: pad_encoded_text_def Let_def)
qed

lemma padding_of_cases: "padding_of n = (if n mod 8 = 0 then 0 else 8 - n mod 8)"
  by (simp add: padding_of_def)

lemma pad_le_aux: "(if r = 0 then 0 else 8 - r) \<le> (7::nat)"
  by (cases "r = 0") (simp, arith)

lemma pad_sum_aux: "r < 8 \<Longrightarrow> (r + (if r = 0 then 0 else 8 - r)) mod 8 = (0::nat)"
proof (cases "r = 0")
  case False
  assume "r < 8"
  then have "r + (8 - r) = 8" by arith
  then show ?thesis using False by simp
qed simp

lemma padding_of_le: "padding_of n \<le> 7"
  unfolding padding_of_cases by (rule pad_le_aux)

lemma padding_of_sum: "(n + padding_of n) mod 8 = 0"
proof -
  have "(n + padding_of n) mod 8 = (n mod 8 + padding_of n) mod 8"
    by (simp add: mod_add_left_eq)
  also have "\<dots> = 0"
    unfolding padding_of_cases by (rule pad_sum_aux) simp
  finally show ?thesis .
qed

lemma length_pad_encoded_text:
  "length (pad_encoded_text B) = 8 + length B + padding_of (length B)"
proof -
  have "padding_of (length B) < 256" using padding_of_le[of "length B"] by simp
  then show ?thesis by (simp add: pad_encoded_text_eq length_format_08b)
qed

lemma pad_encoded_text_mod8: "length (pad_encoded_text B) mod 8 = 0"
proof -
  have "(8 + (length B + padding_of (length B))) mod 8 = 0"
    using padding_of_sum[of "length B"] by presburger
  then show ?thesis by (simp add: length_pad_encoded_text add.assoc)
qed

lemma pad_encoded_text_bits: "list_all is_bit B \<Longrightarrow> list_all is_bit (pad_encoded_text B)"
  by (simp add: pad_encoded_text_eq format_08b_bits zeros_bits)

lemma remove_padding_pad:
  "remove_padding (pad_encoded_text B) = (if B = [] then Inl ValueError else Inr B)"
proof -
  let ?p = "padding_of (length B)"
  let ?s = "pad_encoded_text B"
  have p7: "?p \<le> 7" by (rule padding_of_le)
  have hl: "length (format_08b ?p) = 8" using p7 by (simp add: length_format_08b)
  have len: "length ?s = 8 + length B + ?p" by (rule length_pad_encoded_text)
  have hd: "take 8 ?s = format_08b ?p" using hl by (simp add: pad_encoded_text_eq)
  have body: "drop 8 ?s = B @ replicate ?p CHR ''0''" using hl by (simp add: pad_encoded_text_eq)
  have strip: "drop 8 (take (length ?s - ?p) ?s) = B"
  proof -
    have "take (length ?s - ?p) ?s = format_08b ?p @ B"
      using hl len by (simp add: pad_encoded_text_eq)
    then show ?thesis using hl by simp
  qed
  have zero: "?p = 0 \<Longrightarrow> drop 8 ?s = B" using body by simp
  show ?thesis
    unfolding remove_padding_def hd int_base2_format_08b
    using p7 len strip zero by (auto simp: Let_def)
qed

text \<open>The slices of a string whose length is a multiple of 8 are all 8 long.\<close>

lemma slices8_Nil: "slices8 [] = []"
  by (subst slices8.simps) simp

lemma slices8_Cons: "s \<noteq> [] \<Longrightarrow> slices8 s = take 8 s # slices8 (drop 8 s)"
  by (subst slices8.simps) simp

lemma slices8_mod8:
  "length s mod 8 = 0 \<Longrightarrow>
   concat (slices8 s) = s \<and> (\<forall>c \<in> set (slices8 s). length c = 8) \<and> length (slices8 s) * 8 = length s"
proof (induction s rule: slices8.induct)
  case (1 s)
  show ?case
  proof (cases "s = []")
    case True
    then show ?thesis by (simp add: slices8_Nil)
  next
    case False
    have "\<not> length s < 8"
    proof
      assume "length s < 8"
      then have "length s mod 8 = length s" by (rule mod_less)
      then show False using "1.prems" False by simp
    qed
    then have l8: "8 \<le> length s" by simp
    have "(length s - 8) mod 8 = length s mod 8"
      using le_mod_geq[OF l8] by simp
    then have "length (drop 8 s) mod 8 = 0"
      using "1.prems" by simp
    from "1.IH"[OF False this]
    have ih: "concat (slices8 (drop 8 s)) = drop 8 s"
        "\<forall>c \<in> set (slices8 (drop 8 s)). length c = 8"
        "length (slices8 (drop 8 s)) * 8 = length s - 8"
      by simp_all
    have t: "length (take 8 s) = 8" using l8 by simp
    have "concat (slices8 s) = s"
      by (simp add: slices8_Cons[OF False] ih(1))
    moreover have "\<forall>c \<in> set (slices8 s). length c = 8"
      using ih(2) t by (simp add: slices8_Cons[OF False])
    moreover have "length (slices8 s) * 8 = length s"
    proof -
      have "length (slices8 s) * 8 = 8 + length (slices8 (drop 8 s)) * 8"
        by (simp add: slices8_Cons[OF False])
      also have "\<dots> = 8 + (length s - 8)" by (simp only: ih(3))
      also have "\<dots> = length s" using l8 by arith
      finally show ?thesis .
    qed
    ultimately show ?thesis by blast
  qed
qed

lemma slices8_bits: "list_all is_bit s \<Longrightarrow> \<forall>c \<in> set (slices8 s). list_all is_bit c"
proof (induction s rule: slices8.induct)
  case (1 s)
  show ?case
  proof (cases "s = []")
    case True
    then show ?thesis by (simp add: slices8_Nil)
  next
    case False
    have "list_all is_bit (take 8 s)" "list_all is_bit (drop 8 s)"
      using "1.prems" by (auto simp: list_all_iff dest: in_set_takeD in_set_dropD)
    with "1.IH"[OF False] show ?thesis
      by (simp add: slices8_Cons[OF False])
  qed
qed

lemma unat_byte: "n < 256 \<Longrightarrow> unat (of_nat n :: 8 word) = n"
  by (simp add: unat_of_nat take_bit_nat_eq_self)

lemma unat_byte_less: "unat (w :: 8 word) < 256"
  using unsigned_less[of w, where 'a=nat] by simp

lemma append_bytes_slices:
  "\<forall>c \<in> set cs. length c = 8 \<and> list_all is_bit c \<Longrightarrow>
   \<exists>bs. append_bytes cs = Inr bs \<and> length bs = length cs \<and> map (\<lambda>byte. format_08b (unat byte)) bs = cs"
proof (induction cs)
  case Nil
  show ?case by simp
next
  case (Cons c cs)
  then obtain bs where bs: "append_bytes cs = Inr bs" "length bs = length cs"
      "map (\<lambda>byte. format_08b (unat byte)) bs = cs"
    by auto
  have c: "length c = 8" "list_all is_bit c" using Cons.prems by simp_all
  then have ne: "c \<noteq> []" by auto
  have v: "bits_val c < 256" using bits_val_bound[of c] c(1) by simp
  have "format_08b (unat (of_nat (bits_val c) :: 8 word)) = c"
    using v c by (simp add: unat_byte format_08b_bits_val)
  then show ?case
    using bs v by (simp add: int_base2_bits[OF ne c(2)])
qed

lemma get_byte_array_pad:
  assumes "list_all is_bit raw"
  shows "\<exists>bs. get_byte_array (pad_encoded_text raw) = Inr bs
           \<and> length bs * 8 = 8 + length raw + padding_of (length raw)
           \<and> expand_bytes bs = pad_encoded_text raw"
proof -
  let ?s = "pad_encoded_text raw"
  have ne: "?s \<noteq> []" using length_pad_encoded_text[of raw] by auto
  have sl: "concat (slices8 ?s) = ?s" "\<forall>c \<in> set (slices8 ?s). length c = 8"
      "length (slices8 ?s) * 8 = length ?s"
    using slices8_mod8[OF pad_encoded_text_mod8[of raw]] by simp_all
  have "\<forall>c \<in> set (slices8 ?s). list_all is_bit c"
    using slices8_bits[OF pad_encoded_text_bits[OF assms]] .
  with sl(2) obtain bs where bs: "append_bytes (slices8 ?s) = Inr bs" "length bs = length (slices8 ?s)"
      "map (\<lambda>byte. format_08b (unat byte)) bs = slices8 ?s"
    using append_bytes_slices[of "slices8 ?s"] by auto
  show ?thesis
    using bs sl ne by (simp add: get_byte_array_def expand_bytes_def length_pad_encoded_text)
qed

section \<open>Claims about padding, packing and preconditions\<close>

text \<open>
  Claim C3, as amended. The padded string always has a length that is a multiple of 8, and
  for every non-empty bit string \<open>B\<close>, \<open>remove_padding\<close> gives \<open>B\<close> back from
  \<open>pad_encoded_text B\<close>. (For the empty string \<open>remove_padding\<close> raises \<open>ValueError\<close>:
  the padded string is the header alone.)
\<close>

theorem padding_correct:
  "length (pad_encoded_text B) mod 8 = 0 \<and>
   (B \<noteq> [] \<longrightarrow> remove_padding (pad_encoded_text B) = Inr B)"
  by (simp add: pad_encoded_text_mod8 remove_padding_pad)

theorem padding_correct_witness:
  "length (pad_encoded_text ''1011'') mod 8 = 0 \<and> ''1011'' \<noteq> [] \<and>
   remove_padding (pad_encoded_text ''1011'') = Inr ''1011''"
  using padding_correct[of "''1011''"] by simp

text \<open>
  Claim C3 as stated fails at the empty bit string: its padded form is rejected.
\<close>

theorem padding_empty_counterexample:
  "remove_padding (pad_encoded_text []) = Inl ValueError"
  by code_simp

text \<open>
  Claim C6. For every non-empty raw bit string, packing (padding, then \<open>get_byte_array\<close>)
  succeeds, and eight times the number of bytes is \<open>8 + len(raw) + padding\<close> with
  \<open>padding = (8 - len(raw) mod 8) mod 8\<close>; that total is a multiple of 8 and at least 8.
\<close>

theorem artifact_length:
  assumes "list_all is_bit raw" and "raw \<noteq> []"
  shows "\<exists>artifact. get_byte_array (pad_encoded_text raw) = Inr artifact \<and>
           length artifact * 8 = 8 + length raw + padding_of (length raw) \<and>
           padding_of (length raw) = (8 - length raw mod 8) mod 8 \<and>
           (8 + length raw + padding_of (length raw)) mod 8 = 0 \<and>
           8 \<le> 8 + length raw + padding_of (length raw)"
proof -
  from get_byte_array_pad[OF assms(1)] obtain bs where
    bs: "get_byte_array (pad_encoded_text raw) = Inr bs"
        "length bs * 8 = 8 + length raw + padding_of (length raw)"
    by blast
  have "(8 + length raw + padding_of (length raw)) mod 8 = 0"
    using pad_encoded_text_mod8[of raw] by (simp only: length_pad_encoded_text)
  then show ?thesis using bs by (simp add: padding_of_def)
qed

theorem artifact_length_witness:
  "list_all is_bit ''110'' \<and> ''110'' \<noteq> [] \<and>
   (\<exists>artifact. get_byte_array (pad_encoded_text ''110'') = Inr artifact \<and>
      length artifact * 8 = 8 + length ''110'' + padding_of (length ''110'') \<and>
      padding_of (length ''110'') = (8 - length ''110'' mod 8) mod 8 \<and>
      (8 + length ''110'' + padding_of (length ''110'')) mod 8 = 0 \<and>
      8 \<le> 8 + length ''110'' + padding_of (length ''110''))"
proof -
  have h: "list_all is_bit ''110''" "''110'' \<noteq> []" by (simp_all add: is_bit_def)
  from artifact_length[OF h] h show ?thesis by blast
qed

text \<open>
  Claim C5, as amended. \<open>compress\<close> on the empty text raises \<open>ValueError\<close> whatever the
  instance holds; \<open>decompress\<close> on the empty byte sequence returns the empty text (the
  \<open>ValueError\<close> of \<open>remove_padding\<close> is caught); \<open>get_byte_array\<close> on the empty string raises
  \<open>ValueError\<close>. Padding the empty bit string is not rejected: it gives the header alone.
\<close>

theorem precondition_rejection:
  "compress self [] = Inl ValueError \<and>
   decompress self [] = Inr [] \<and>
   get_byte_array [] = Inl ValueError \<and>
   pad_encoded_text [] = ''00000000''"
proof -
  have "pad_encoded_text [] = ''00000000''" by code_simp
  moreover have "remove_padding [] = Inl ValueError" by (simp add: remove_padding_def)
  ultimately show ?thesis
    by (simp add: compress_def decompress_def expand_bytes_def get_byte_array_def)
qed

theorem precondition_rejection_witness:
  "compress (init :: char HuffmanCoding) [] = Inl ValueError \<and>
   decompress (init :: char HuffmanCoding) [] = Inr [] \<and>
   get_byte_array [] = Inl ValueError \<and>
   pad_encoded_text [] = ''00000000''"
  using precondition_rejection[of "init :: char HuffmanCoding"] by simp

text \<open>
  Claim C5 as stated fails for packing: the empty bit string is padded and packed into the
  one-byte artifact 0 instead of being rejected.
\<close>

theorem pack_empty_counterexample:
  "get_byte_array (pad_encoded_text []) = Inr [0]"
  by code_simp

end
